theory Spec2Isabelle
  imports Main "HOL-Library.Word"
begin

unbundle bit_operations_syntax

section \<open>Data model of ring\_buffer.c\<close>

text \<open>
  \<^verbatim>\<open>typedef unsigned int uint; typedef unsigned char uchar;\<close>
  \<open>unsigned int\<close> is taken at its usual width of 32 bits: \<open>+\<close> and \<open>-\<close> on \<open>uint\<close> wrap
  modulo \<open>2 ^ 32\<close>, as the comment on \<open>head\<close> and \<open>tail\<close> in the source expects.
  A byte (\<open>uchar\<close>, and the raw content of a \<open>char\<close>) is an 8-bit word.
\<close>

type_synonym uint = "32 word"
type_synonym uchar = "8 word"

text \<open>
  Pointers to bytes are addresses; \<open>NULL\<close> is address 0. The memory is an explicit store:
  a partial map from addresses to bytes whose domain is the set of addresses that belong to
  some object. C gives no meaning to an access outside every object (or through \<open>NULL\<close>);
  the model makes such an access the value \<open>Inl Invalid_Access\<close>.
\<close>

type_synonym addr = nat

definition NULL :: addr where
  "NULL = 0"

datatype fault = Invalid_Access

text \<open>\<^verbatim>\<open>struct ringbuffer_attribute { uint n_elem; uchar *buffer; }\<close>\<close>

record ringbuffer_attribute =
  attr_n_elem :: uint
  buffer :: addr

text \<open>\<^verbatim>\<open>struct ring_buffer { uint n_elem; uchar *buf; volatile uint head; volatile uint tail; }\<close>\<close>

record ring_buffer =
  n_elem :: uint
  buf :: addr
  head :: uint
  tail :: uint

text \<open>
  The program state the buffer functions work on: the file-scope variable \<open>ringbuffer\<close>
  and the memory its \<open>buf\<close> pointer refers to. The structure itself and the caller's
  variable behind the \<open>data\<close> pointer are not part of that memory: the backing storage is
  taken to be disjoint from both.
\<close>

record state =
  ringbuffer :: ring_buffer
  mem :: "addr \<rightharpoonup> uchar"

section \<open>The functions\<close>

text \<open>\<^verbatim>\<open>return ((rbp->head - rbp->tail) == rbp->n_elem) ? 1 : 0;\<close>\<close>

definition ring_buffer_full :: "ring_buffer \<Rightarrow> int" where
  "ring_buffer_full rbp = (if head rbp - tail rbp = n_elem rbp then 1 else 0)"

text \<open>\<^verbatim>\<open>return ((rbp->head - rbp->tail) == 0U) ? 1 : 0;\<close>\<close>

definition ring_buffer_empty :: "ring_buffer \<Rightarrow> int" where
  "ring_buffer_empty rbp = (if head rbp - tail rbp = 0 then 1 else 0)"

text \<open>
  \<open>ring_buffer_init\<close>: the parameter is a pointer to the attribute structure, \<open>None\<close> for
  \<open>NULL\<close>. The result is the returned \<open>err\<close> and the state afterwards.
\<close>

definition ring_buffer_init :: "ringbuffer_attribute option \<Rightarrow> state \<Rightarrow> int \<times> state" where
  "ring_buffer_init attr s =
     (case attr of
        None \<Rightarrow> (- 1, s)
      | Some a \<Rightarrow>
          if buffer a \<noteq> NULL then
            if (attr_n_elem a - 1) AND attr_n_elem a = 0 then
              (0, s\<lparr>ringbuffer :=
                     \<lparr>n_elem = attr_n_elem a, buf = buffer a, head = 0, tail = 0\<rparr>\<rparr>)
            else (- 1, s)
          else (- 1, s))"

text \<open>
  \<open>ring_buffer_put\<close>: the parameter of the model is the byte \<open>*data\<close> that the pointer
  designates. \<open>memcpy\<close> of one byte to \<open>&ringbuffer.buf[offset]\<close> is a store at address
  \<open>buf + offset\<close>. The debug \<open>printf\<close> is not modelled.
\<close>

definition ring_buffer_put :: "uchar \<Rightarrow> state \<Rightarrow> fault + (int \<times> state)" where
  "ring_buffer_put data s =
     (let rb = ringbuffer s in
      if ring_buffer_full rb = 0 then
        let offset = head rb AND (n_elem rb - 1);
            a = buf rb + unat offset
        in if buf rb = NULL \<or> mem s a = None then Inl Invalid_Access
           else Inr (0, s\<lparr>mem := (mem s)(a \<mapsto> data),
                           ringbuffer := rb\<lparr>head := head rb + 1\<rparr>\<rparr>)
      else Inr (- 1, s))"

text \<open>
  \<open>ring_buffer_get\<close>: \<open>data\<close> is an in-out parameter. The model takes the byte that
  \<open>*data\<close> holds before the call and returns the byte it holds afterwards, together with
  the returned \<open>err\<close> and the state.
\<close>

definition ring_buffer_get :: "uchar \<Rightarrow> state \<Rightarrow> fault + (int \<times> uchar \<times> state)" where
  "ring_buffer_get data s =
     (let rb = ringbuffer s in
      if ring_buffer_empty rb = 0 then
        let offset = tail rb AND (n_elem rb - 1);
            a = buf rb + unat offset
        in if buf rb = NULL then Inl Invalid_Access
           else (case mem s a of
                   None \<Rightarrow> Inl Invalid_Access
                 | Some v \<Rightarrow> Inr (0, v, s\<lparr>ringbuffer := rb\<lparr>tail := tail rb + 1\<rparr>\<rparr>))
      else Inr (- 1, data, s))"

text \<open>
  \<open>uart_getchar\<close>: \<^verbatim>\<open>int retval = -1; char c = -1; if (ring_buffer_get(&c) == 0) retval = (int) c;\<close>
  Whether plain \<open>char\<close> is signed is the choice of the C implementation, so it is a parameter:
  the conversion \<open>(int) c\<close> reads the byte as two's complement when \<open>char\<close> is signed and
  as unsigned otherwise. \<open>char c = -1\<close> is the byte \<open>0xFF\<close> in both cases.
\<close>

definition char_to_int :: "bool \<Rightarrow> uchar \<Rightarrow> int" where
  "char_to_int char_signed c = (if char_signed then sint c else uint c)"

definition uart_getchar :: "bool \<Rightarrow> state \<Rightarrow> fault + (int \<times> state)" where
  "uart_getchar char_signed s =
     (case ring_buffer_get (- 1) s of
        Inl f \<Rightarrow> Inl f
      | Inr (err, c, s') \<Rightarrow> Inr (if err = 0 then char_to_int char_signed c else - 1, s'))"

section \<open>Initialised states\<close>

text \<open>
  The states the buffer is in after a successful \<open>ring_buffer_init\<close> on a backing array
  of at least \<open>n_elem\<close> bytes, and after any further calls: the pointer is not \<open>NULL\<close>, the
  \<open>n_elem\<close> bytes from \<open>buf\<close> on belong to an object, \<open>n_elem\<close> passed the test of
  \<open>ring_buffer_init\<close>, and the cursor distance is at most \<open>n_elem\<close>.
\<close>

definition storage_ok :: "addr \<Rightarrow> uint \<Rightarrow> (addr \<rightharpoonup> uchar) \<Rightarrow> bool" where
  "storage_ok p n m = (\<forall>i \<in> {..<unat n}. m (p + i) \<noteq> None)"

definition rb_inv :: "state \<Rightarrow> bool" where
  "rb_inv s =
     (let rb = ringbuffer s in
      buf rb \<noteq> NULL \<and> storage_ok (buf rb) (n_elem rb) (mem s) \<and>
      (n_elem rb - 1) AND n_elem rb = 0 \<and>
      head rb - tail rb \<le> n_elem rb)"

text \<open>A power of two that fits an \<open>unsigned int\<close>.\<close>

definition is_pow2 :: "uint \<Rightarrow> bool" where
  "is_pow2 n = (n \<in> set (map (\<lambda>k. 2 ^ k) [0..<32]))"


section \<open>Sequences of calls\<close>

text \<open>
  A call of \<open>ring_buffer_put(&x)\<close> with \<open>x\<close> holding \<open>b\<close> is \<open>Put b\<close>; a call of
  \<open>ring_buffer_get(&x)\<close> with \<open>x\<close> holding \<open>c\<close> before the call is \<open>Get c\<close>. The result of
  a call is the returned \<open>err\<close> together with the byte \<open>x\<close> holds afterwards. A sequence of
  calls stops at the first invalid access.
\<close>

datatype op = Put uchar | Get uchar

fun exec :: "op \<Rightarrow> state \<Rightarrow> fault + ((int \<times> uchar) \<times> state)" where
  "exec (Put b) s =
     (case ring_buffer_put b s of Inl f \<Rightarrow> Inl f | Inr (err, s') \<Rightarrow> Inr ((err, b), s'))"
| "exec (Get c) s =
     (case ring_buffer_get c s of Inl f \<Rightarrow> Inl f | Inr (err, c', s') \<Rightarrow> Inr ((err, c'), s'))"

fun run :: "op list \<Rightarrow> state \<Rightarrow> fault + ((int \<times> uchar) list \<times> state)" where
  "run [] s = Inr ([], s)"
| "run (x # xs) s =
     (case exec x s of
        Inl f \<Rightarrow> Inl f
      | Inr (r, s') \<Rightarrow>
          (case run xs s' of Inl f \<Rightarrow> Inl f | Inr (rs, s'') \<Rightarrow> Inr (r # rs, s'')))"

fun is_put :: "op \<Rightarrow> bool" where
  "is_put (Put b) = True"
| "is_put (Get c) = False"

text \<open>The number of calls of a sequence that were puts (gets) and returned 0.\<close>

definition puts_ok :: "op list \<Rightarrow> (int \<times> uchar) list \<Rightarrow> nat" where
  "puts_ok ops rs = length (filter (\<lambda>(x, r). is_put x \<and> fst r = 0) (zip ops rs))"

definition gets_ok :: "op list \<Rightarrow> (int \<times> uchar) list \<Rightarrow> nat" where
  "gets_ok ops rs = length (filter (\<lambda>(x, r). \<not> is_put x \<and> fst r = 0) (zip ops rs))"

section \<open>The buffered bytes and the queue of the specification\<close>

text \<open>The address of the slot a cursor value selects: \<open>&buf[c & (n_elem - 1)]\<close>.\<close>

definition slot :: "ring_buffer \<Rightarrow> uint \<Rightarrow> addr" where
  "slot rb c = buf rb + unat (c AND (n_elem rb - 1))"

text \<open>The bytes between \<open>tail\<close> and \<open>head\<close>, oldest first.\<close>

definition contents :: "state \<Rightarrow> uchar list" where
  "contents s =
     (let rb = ringbuffer s in
      map (\<lambda>i. the (mem s (slot rb (tail rb + of_nat i)))) [0..<unat (head rb - tail rb)])"

text \<open>
  The specification's buffer, written from its words: a first-in first-out queue of at most
  \<open>N\<close> bytes; \<open>put\<close> appends unless the queue holds \<open>N\<close> bytes, \<open>get\<close> removes the oldest
  byte unless the queue is empty. Failure is the value \<open>- 1\<close> and changes nothing.
\<close>

definition spec_put :: "nat \<Rightarrow> uchar \<Rightarrow> uchar list \<Rightarrow> int \<times> uchar list" where
  "spec_put N b q = (if length q = N then (- 1, q) else (0, q @ [b]))"

definition spec_get :: "uchar \<Rightarrow> uchar list \<Rightarrow> int \<times> uchar \<times> uchar list" where
  "spec_get c q = (case q of [] \<Rightarrow> (- 1, c, []) | x # xs \<Rightarrow> (0, x, xs))"

fun spec_exec :: "nat \<Rightarrow> op \<Rightarrow> uchar list \<Rightarrow> (int \<times> uchar) \<times> uchar list" where
  "spec_exec N (Put b) q = (case spec_put N b q of (err, q') \<Rightarrow> ((err, b), q'))"
| "spec_exec N (Get c) q = (case spec_get c q of (err, c', q') \<Rightarrow> ((err, c'), q'))"

fun spec_run :: "nat \<Rightarrow> op list \<Rightarrow> uchar list \<Rightarrow> (int \<times> uchar) list \<times> uchar list" where
  "spec_run N [] q = ([], q)"
| "spec_run N (x # xs) q =
     (case spec_exec N x q of
        (r, q') \<Rightarrow> (case spec_run N xs q' of (rs, q'') \<Rightarrow> (r # rs, q'')))"

section \<open>The demo program's buffer\<close>

text \<open>
  \<open>main\<close> initialises the buffer on the static array \<open>RingBufferMemory\<close> of
  \<open>RING_BUFFER_SIZE = 8\<close> bytes. At program start the static \<open>ringbuffer\<close> and the array are
  all zero. The array is placed at address 4096.
\<close>

definition RING_BUFFER_SIZE :: uint where
  "RING_BUFFER_SIZE = 8"

definition RingBufferMemory :: addr where
  "RingBufferMemory = 4096"

definition start_state :: state where
  "start_state =
     \<lparr>ringbuffer = \<lparr>n_elem = 0, buf = NULL, head = 0, tail = 0\<rparr>,
      mem = (\<lambda>a. if RingBufferMemory \<le> a \<and> a < RingBufferMemory + 8 then Some 0 else None)\<rparr>"

definition demo_attr :: ringbuffer_attribute where
  "demo_attr = \<lparr>attr_n_elem = RING_BUFFER_SIZE, buffer = RingBufferMemory\<rparr>"

definition demo_state :: state where
  "demo_state = snd (ring_buffer_init (Some demo_attr) start_state)"

text \<open>A state of the demo buffer whose cursors are about to overflow, holding one byte.\<close>

definition wrap_state :: state where
  "wrap_state =
     \<lparr>ringbuffer = \<lparr>n_elem = 8, buf = RingBufferMemory, head = - 1, tail = - 2\<rparr>,
      mem = (\<lambda>a. if RingBufferMemory \<le> a \<and> a < RingBufferMemory + 8 then Some 7 else None)\<rparr>"

text \<open>A full state of the demo buffer in which \<open>head\<close> has wrapped and \<open>tail\<close> has not.\<close>

definition full_state :: state where
  "full_state =
     \<lparr>ringbuffer = \<lparr>n_elem = 8, buf = RingBufferMemory, head = 6, tail = - 2\<rparr>,
      mem = (\<lambda>a. if RingBufferMemory \<le> a \<and> a < RingBufferMemory + 8 then Some 7 else None)\<rparr>"

text \<open>The demo buffer after \<open>ring_buffer_put\<close> of the byte \<open>0xFF\<close>.\<close>

definition ff_state :: state where
  "ff_state =
     demo_state\<lparr>mem := (mem demo_state)(RingBufferMemory \<mapsto> 255),
                ringbuffer := \<lparr>n_elem = 8, buf = RingBufferMemory, head = 1, tail = 0\<rparr>\<rparr>"

text \<open>
  The buffer after \<open>ring_buffer_init\<close> with \<open>n_elem = 0\<close> on the demo array, a call that
  returns 0.
\<close>

definition zero_attr :: ringbuffer_attribute where
  "zero_attr = \<lparr>attr_n_elem = 0, buffer = RingBufferMemory\<rparr>"

definition zero_state :: state where
  "zero_state = snd (ring_buffer_init (Some zero_attr) start_state)"

section \<open>Powers of two and the index mask\<close>

lemma and_pred_nat: "0 < m \<Longrightarrow> (m - 1) AND m = (0::nat) \<Longrightarrow> \<exists>k. m = 2 ^ k"
proof (induction m rule: less_induct)
  case (less m)
  show ?case
  proof (cases "m = 1")
    case True
    then show ?thesis by (intro exI[of _ 0]) simp
  next
    case False
    with less.prems have gt: "1 < m" by simp
    show ?thesis
    proof (cases "even m")
      case True
      then obtain m' where m: "m = 2 * m'" by (auto elim: evenE)
      with less.prems have pos: "0 < m'" by simp
      have d: "(m - 1) div 2 = m' - 1" using m pos by auto
      have "(m - 1) AND m = 2 * ((m' - 1) AND m')"
      proof -
        have "odd (m - 1)" using m pos by simp
        moreover have "m div 2 = m'" using m by simp
        ultimately show ?thesis using d True by (subst and_rec) simp
      qed
      with less.prems have "(m' - 1) AND m' = 0" by simp
      moreover have "m' < m" using m pos by simp
      ultimately obtain k where "m' = 2 ^ k" using less.IH pos by blast
      then have "m = 2 ^ Suc k" using m by simp
      then show ?thesis by blast
    next
      case False
      then obtain m' where m: "m = 2 * m' + 1" by (auto elim: oddE)
      with gt have pos: "0 < m'" by simp
      have "(m - 1) AND m = 2 * (m' AND m')"
        by (subst and_rec) (simp add: m)
      with less.prems pos show ?thesis by simp
    qed
  qed
qed

lemma is_pow2_iff: "is_pow2 n \<longleftrightarrow> (\<exists>k<32. n = 2 ^ k)"
  unfolding is_pow2_def by auto

lemma pow2_test_imp:
  fixes n :: uint
  assumes "n \<noteq> 0" "(n - 1) AND n = 0"
  shows "is_pow2 n"
proof -
  have "unat ((n - 1) AND n) = 0" using assms by simp
  then have "(unat n - 1) AND unat n = 0"
    using assms(1) by (simp add: unsigned_and_eq unat_minus_one)
  moreover have "0 < unat n" using assms(1) by (simp add: unat_gt_0)
  ultimately obtain k where k: "unat n = 2 ^ k" using and_pred_nat by blast
  have "unat n < 2 ^ 32" using unsigned_less[of n] by simp
  with k have "(2::nat) ^ k < 2 ^ 32" by simp
  then have "k < 32" by (simp only: power_strict_increasing_iff)
  moreover have "n = 2 ^ k"
  proof -
    have "n = of_nat (unat n)" by simp
    also have "\<dots> = 2 ^ k" by (simp add: k)
    finally show ?thesis .
  qed
  ultimately show ?thesis unfolding is_pow2_iff by blast
qed

lemma pow2_test: "k < 32 \<Longrightarrow> ((2 ^ k :: uint) - 1) AND 2 ^ k = 0"
proof -
  have "(2 ^ k :: uint) AND mask k = take_bit k (2 ^ k)" by (simp only: take_bit_eq_mask)
  also have "\<dots> = 0" by (simp add: take_bit_eq_0_iff)
  finally show ?thesis by (simp add: mask_eq_exp_minus_1 and.commute)
qed

lemma and_pred_mask: "x AND ((2 ^ k :: uint) - 1) = take_bit k x"
  by (simp add: take_bit_eq_mask mask_eq_exp_minus_1)

lemma slot_bound:
  fixes n :: uint
  assumes "n \<noteq> 0"
  shows "unat (x AND (n - 1)) < unat n"
proof -
  have "x AND (n - 1) \<le> n - 1" by (rule word_and_le1)
  then have "unat (x AND (n - 1)) \<le> unat (n - 1)" by (simp add: word_le_nat_alt)
  also have "\<dots> < unat n" using assms by (rule measure_unat)
  finally show ?thesis .
qed

lemma nat_mod_add_inj:
  fixes a i j m :: nat
  assumes "i < m" "j < m" "(a + i) mod m = (a + j) mod m"
  shows "i = j"
proof -
  have aux: "x = y" if "x \<le> y" "y < m" "(a + x) mod m = (a + y) mod m" for x y :: nat
  proof -
    have "m dvd (a + y) - (a + x)"
      using that(1,3) mod_eq_dvd_iff_nat[of "a + x" "a + y" m] by simp
    then have "m dvd y - x" by simp
    moreover have "y - x < m" using that(2) by simp
    ultimately have "y - x = 0" by (meson dvd_imp_le not_less neq0_conv)
    with that(1) show ?thesis by simp
  qed
  show ?thesis
  proof (cases "i \<le> j")
    case True
    then show ?thesis using assms aux by blast
  next
    case False
    then have "j \<le> i" by simp
    then have "j = i" using assms aux[of j i] by simp
    then show ?thesis by simp
  qed
qed

lemma unat_take_bit_add:
  fixes t :: uint
  assumes "k < 32"
  shows "unat (take_bit k (t + of_nat i)) = (unat t + i) mod 2 ^ k"
proof -
  have dvd: "(2::nat) ^ k dvd 2 ^ 32" using assms by (intro le_imp_power_dvd) simp
  have "unat (take_bit k (t + of_nat i)) = unat (t + of_nat i) mod 2 ^ k"
    by (simp only: unsigned_take_bit_eq take_bit_nat_def)
  also have "unat (t + of_nat i) = (unat t + i) mod 2 ^ 32"
    by (simp add: unat_word_ariths unat_of_nat mod_simps)
  also have "(unat t + i) mod 2 ^ 32 mod 2 ^ k = (unat t + i) mod 2 ^ k"
    using dvd by (rule mod_mod_cancel)
  finally show ?thesis .
qed

lemma take_bit_add_inj:
  fixes t :: uint
  assumes "k < 32" "i < 2 ^ k" "j < 2 ^ k"
    and "take_bit k (t + of_nat i) = take_bit k (t + of_nat j)"
  shows "i = j"
proof -
  have "unat (take_bit k (t + of_nat i)) = unat (take_bit k (t + of_nat j))"
    using assms(4) by simp
  then have "(unat t + i) mod 2 ^ k = (unat t + j) mod 2 ^ k"
    using assms(1) by (simp only: unat_take_bit_add)
  with assms(2,3) show ?thesis using nat_mod_add_inj by blast
qed

section \<open>Initialisation\<close>

text \<open>
  What \<open>ring_buffer_init\<close> accepts, in terms of powers of two: the test
  \<open>((n - 1) & n) == 0\<close> holds for the powers of two and for 0.
\<close>

lemma init_result:
  "ring_buffer_init attr s =
     (case attr of
        None \<Rightarrow> (- 1, s)
      | Some a \<Rightarrow>
          if buffer a \<noteq> NULL \<and> (attr_n_elem a = 0 \<or> is_pow2 (attr_n_elem a))
          then (0, s\<lparr>ringbuffer := \<lparr>n_elem = attr_n_elem a, buf = buffer a, head = 0, tail = 0\<rparr>\<rparr>)
          else (- 1, s))"
proof (cases attr)
  case None
  then show ?thesis by (simp add: ring_buffer_init_def)
next
  case (Some a)
  have "(attr_n_elem a - 1) AND attr_n_elem a = 0 \<longleftrightarrow> attr_n_elem a = 0 \<or> is_pow2 (attr_n_elem a)"
    using pow2_test_imp[of "attr_n_elem a"] pow2_test by (auto simp: is_pow2_iff)
  with Some show ?thesis by (simp add: ring_buffer_init_def)
qed

section \<open>Single calls in initialised states\<close>

lemma is_pow2_nz: "is_pow2 n \<Longrightarrow> n \<noteq> 0"
  by (auto simp: is_pow2_iff)

lemma inv_slot_ok:
  assumes "rb_inv s" "n_elem (ringbuffer s) \<noteq> 0"
  shows "mem s (buf (ringbuffer s) + unat (c AND (n_elem (ringbuffer s) - 1))) \<noteq> None"
proof -
  have "unat (c AND (n_elem (ringbuffer s) - 1)) < unat (n_elem (ringbuffer s))"
    using assms(2) by (rule slot_bound)
  with assms(1) show ?thesis by (simp add: rb_inv_def storage_ok_def Let_def)
qed

lemma not_full_nz: "ring_buffer_full rb = 0 \<Longrightarrow> head rb - tail rb \<le> n_elem rb \<Longrightarrow> n_elem rb \<noteq> 0"
  by (auto simp: ring_buffer_full_def split: if_splits)

lemma not_empty_nz: "ring_buffer_empty rb = 0 \<Longrightarrow> head rb - tail rb \<le> n_elem rb \<Longrightarrow> n_elem rb \<noteq> 0"
  by (auto simp: ring_buffer_empty_def split: if_splits)

lemma inv_le: "rb_inv s \<Longrightarrow> head (ringbuffer s) - tail (ringbuffer s) \<le> n_elem (ringbuffer s)"
  by (simp add: rb_inv_def Let_def)

lemma inv_buf: "rb_inv s \<Longrightarrow> buf (ringbuffer s) \<noteq> NULL"
  by (simp add: rb_inv_def Let_def)

lemmas demo_defs = demo_state_def demo_attr_def start_state_def wrap_state_def full_state_def
  ring_buffer_init_def NULL_def RING_BUFFER_SIZE_def RingBufferMemory_def

lemma demo_state_inv: "rb_inv demo_state"
  by (simp add: demo_defs rb_inv_def storage_ok_def)

lemma wrap_state_inv: "rb_inv wrap_state"
  by (simp add: demo_defs rb_inv_def storage_ok_def)

lemma full_state_inv: "rb_inv full_state"
  by (simp add: demo_defs rb_inv_def storage_ok_def)

lemma get_step:
  assumes "rb_inv s" "ring_buffer_empty (ringbuffer s) = 0"
  shows "\<exists>v. mem s (buf (ringbuffer s) +
                   unat (tail (ringbuffer s) AND (n_elem (ringbuffer s) - 1))) = Some v \<and>
             ring_buffer_get c s =
               Inr (0, v, s\<lparr>ringbuffer := (ringbuffer s)\<lparr>tail := tail (ringbuffer s) + 1\<rparr>\<rparr>)"
proof -
  have "n_elem (ringbuffer s) \<noteq> 0" using assms(2) inv_le[OF assms(1)] by (rule not_empty_nz)
  then have "mem s (buf (ringbuffer s) +
      unat (tail (ringbuffer s) AND (n_elem (ringbuffer s) - 1))) \<noteq> None"
    using assms(1) inv_slot_ok by blast
  with assms(2) inv_buf[OF assms(1)] show ?thesis
    by (auto simp add: ring_buffer_get_def Let_def)
qed

lemma put_step:
  assumes "rb_inv s" "ring_buffer_full (ringbuffer s) = 0"
  shows "ring_buffer_put b s =
           Inr (0, s\<lparr>mem := (mem s)(buf (ringbuffer s) +
                        unat (head (ringbuffer s) AND (n_elem (ringbuffer s) - 1)) \<mapsto> b),
                     ringbuffer := (ringbuffer s)\<lparr>head := head (ringbuffer s) + 1\<rparr>\<rparr>)"
proof -
  have "n_elem (ringbuffer s) \<noteq> 0" using assms(2) inv_le[OF assms(1)] by (rule not_full_nz)
  then have "mem s (buf (ringbuffer s) +
      unat (head (ringbuffer s) AND (n_elem (ringbuffer s) - 1))) \<noteq> None"
    using assms(1) inv_slot_ok by blast
  with assms(2) inv_buf[OF assms(1)] show ?thesis
    by (simp add: ring_buffer_put_def Let_def)
qed

text \<open>
  Claim C1. In every initialised state in which the buffer is not full, \<open>ring_buffer_put\<close>
  stores the byte at offset \<open>head & (n_elem - 1)\<close> of the storage, increments \<open>head\<close> by
  one (modulo \<open>2 ^ 32\<close>) and returns 0; in every initialised state in which the buffer is
  full it returns \<open>- 1\<close> and the state (\<open>head\<close>, \<open>tail\<close>, storage) is unchanged.
\<close>

theorem put_correct:
  assumes "rb_inv s"
  shows "(ring_buffer_full (ringbuffer s) = 0 \<longrightarrow>
          ring_buffer_put b s =
            Inr (0, s\<lparr>mem := (mem s)(buf (ringbuffer s) +
                         unat (head (ringbuffer s) AND (n_elem (ringbuffer s) - 1)) \<mapsto> b),
                      ringbuffer := (ringbuffer s)\<lparr>head := head (ringbuffer s) + 1\<rparr>\<rparr>)) \<and>
         (ring_buffer_full (ringbuffer s) = 1 \<longrightarrow> ring_buffer_put b s = Inr (- 1, s))"
proof (cases "ring_buffer_full (ringbuffer s) = 0")
  case True
  then show ?thesis using put_step[OF assms, of b] by simp
next
  case False
  then show ?thesis by (simp add: ring_buffer_put_def Let_def)
qed

theorem put_correct_witness:
  "rb_inv wrap_state \<and> ring_buffer_full (ringbuffer wrap_state) = 0 \<and>
   ring_buffer_put 65 wrap_state =
     Inr (0, wrap_state\<lparr>mem := (mem wrap_state)(RingBufferMemory + 7 \<mapsto> 65),
                        ringbuffer := \<lparr>n_elem = 8, buf = RingBufferMemory, head = 0, tail = - 2\<rparr>\<rparr>) \<and>
   rb_inv full_state \<and> ring_buffer_full (ringbuffer full_state) = 1 \<and>
   ring_buffer_put 65 full_state = Inr (- 1, full_state)"
proof -
  have "ring_buffer_full (ringbuffer wrap_state) = 0"
    by (simp add: ring_buffer_full_def wrap_state_def)
  moreover have "ring_buffer_full (ringbuffer full_state) = 1"
    by (simp add: ring_buffer_full_def full_state_def)
  moreover have "wrap_state\<lparr>mem := (mem wrap_state)(buf (ringbuffer wrap_state) +
                         unat (head (ringbuffer wrap_state) AND (n_elem (ringbuffer wrap_state) - 1)) \<mapsto> 65),
                      ringbuffer := (ringbuffer wrap_state)\<lparr>head := head (ringbuffer wrap_state) + 1\<rparr>\<rparr>
     = wrap_state\<lparr>mem := (mem wrap_state)(RingBufferMemory + 7 \<mapsto> 65),
                        ringbuffer := \<lparr>n_elem = 8, buf = RingBufferMemory, head = 0, tail = - 2\<rparr>\<rparr>"
    by (simp add: wrap_state_def)
  ultimately show ?thesis
    using put_correct[OF wrap_state_inv, of 65] put_correct[OF full_state_inv, of 65]
      wrap_state_inv full_state_inv by simp
qed

text \<open>
  Claim C2. In every initialised state in which the buffer is not empty, \<open>ring_buffer_get\<close>
  delivers the byte stored at offset \<open>tail & (n_elem - 1)\<close>, increments \<open>tail\<close> by one
  (modulo \<open>2 ^ 32\<close>) and returns 0; in every initialised state in which the buffer is empty
  (the freshly initialised buffer of the demo is one) it returns \<open>- 1\<close>, leaves \<open>*data\<close> as
  it was, and the state is unchanged.
\<close>

theorem get_correct:
  assumes "rb_inv s"
  shows "(ring_buffer_empty (ringbuffer s) = 0 \<longrightarrow>
          (\<exists>v. mem s (buf (ringbuffer s) +
                        unat (tail (ringbuffer s) AND (n_elem (ringbuffer s) - 1))) = Some v \<and>
               ring_buffer_get c s =
                 Inr (0, v, s\<lparr>ringbuffer := (ringbuffer s)\<lparr>tail := tail (ringbuffer s) + 1\<rparr>\<rparr>))) \<and>
         (ring_buffer_empty (ringbuffer s) = 1 \<longrightarrow> ring_buffer_get c s = Inr (- 1, c, s))"
proof (cases "ring_buffer_empty (ringbuffer s) = 0")
  case True
  then show ?thesis using get_step[OF assms, of c] by simp
next
  case False
  then show ?thesis by (simp add: ring_buffer_get_def Let_def)
qed

theorem get_correct_witness:
  "rb_inv wrap_state \<and> ring_buffer_empty (ringbuffer wrap_state) = 0 \<and>
   mem wrap_state (RingBufferMemory + 6) = Some 7 \<and>
   ring_buffer_get 0 wrap_state =
     Inr (0, 7, wrap_state\<lparr>ringbuffer := \<lparr>n_elem = 8, buf = RingBufferMemory, head = - 1, tail = - 1\<rparr>\<rparr>) \<and>
   rb_inv demo_state \<and> ring_buffer_empty (ringbuffer demo_state) = 1 \<and>
   ring_buffer_get 0 demo_state = Inr (- 1, 0, demo_state)"
proof -
  have "ring_buffer_empty (ringbuffer wrap_state) = 0"
    by (simp add: ring_buffer_empty_def wrap_state_def)
  moreover have "ring_buffer_empty (ringbuffer demo_state) = 1"
    by (simp add: ring_buffer_empty_def demo_defs)
  moreover have "buf (ringbuffer wrap_state) +
      unat (tail (ringbuffer wrap_state) AND (n_elem (ringbuffer wrap_state) - 1)) = RingBufferMemory + 6"
    by (simp add: wrap_state_def)
  moreover have "mem wrap_state (RingBufferMemory + 6) = Some 7"
    by (simp add: wrap_state_def)
  moreover have "(ringbuffer wrap_state)\<lparr>tail := tail (ringbuffer wrap_state) + 1\<rparr>
      = \<lparr>n_elem = 8, buf = RingBufferMemory, head = - 1, tail = - 1\<rparr>"
    by (simp add: wrap_state_def)
  ultimately show ?thesis
    using get_correct[OF wrap_state_inv, of 0] get_correct[OF demo_state_inv, of 0]
      wrap_state_inv demo_state_inv by simp
qed

text \<open>
  Claim C10. A call of \<open>ring_buffer_put\<close> that returns 0 changes only \<open>head\<close> and the storage
  byte at offset \<open>head & (n_elem - 1)\<close>: \<open>tail\<close>, \<open>n_elem\<close>, \<open>buf\<close> and every other byte of
  memory are as before. A call of \<open>ring_buffer_get\<close> that returns 0 changes only \<open>tail\<close>:
  \<open>head\<close>, \<open>n_elem\<close>, \<open>buf\<close> and all of memory, the byte just read included, are as before.
\<close>

theorem success_frame:
  "(ring_buffer_put b s = Inr (0, s') \<longrightarrow>
      ringbuffer s' = (ringbuffer s)\<lparr>head := head (ringbuffer s) + 1\<rparr> \<and>
      tail (ringbuffer s') = tail (ringbuffer s) \<and>
      n_elem (ringbuffer s') = n_elem (ringbuffer s) \<and>
      buf (ringbuffer s') = buf (ringbuffer s) \<and>
      (\<forall>a. a \<noteq> buf (ringbuffer s) + unat (head (ringbuffer s) AND (n_elem (ringbuffer s) - 1))
           \<longrightarrow> mem s' a = mem s a)) \<and>
   (ring_buffer_get c s = Inr (0, c', s') \<longrightarrow>
      ringbuffer s' = (ringbuffer s)\<lparr>tail := tail (ringbuffer s) + 1\<rparr> \<and>
      head (ringbuffer s') = head (ringbuffer s) \<and>
      n_elem (ringbuffer s') = n_elem (ringbuffer s) \<and>
      buf (ringbuffer s') = buf (ringbuffer s) \<and>
      mem s' = mem s)"
  by (auto simp: ring_buffer_put_def ring_buffer_get_def Let_def split: if_splits option.splits)

theorem success_frame_witness:
  "ring_buffer_put 65 wrap_state =
     Inr (0, wrap_state\<lparr>mem := (mem wrap_state)(RingBufferMemory + 7 \<mapsto> 65),
                        ringbuffer := \<lparr>n_elem = 8, buf = RingBufferMemory, head = 0, tail = - 2\<rparr>\<rparr>) \<and>
   tail (ringbuffer wrap_state) = - 2 \<and>
   RingBufferMemory + 6 \<noteq> RingBufferMemory + 7 \<and>
   ((mem wrap_state)(RingBufferMemory + 7 \<mapsto> 65)) (RingBufferMemory + 6)
     = mem wrap_state (RingBufferMemory + 6) \<and>
   ring_buffer_get 0 wrap_state =
     Inr (0, 7, wrap_state\<lparr>ringbuffer := \<lparr>n_elem = 8, buf = RingBufferMemory, head = - 1, tail = - 1\<rparr>\<rparr>) \<and>
   mem (wrap_state\<lparr>ringbuffer := \<lparr>n_elem = 8, buf = RingBufferMemory, head = - 1, tail = - 1\<rparr>\<rparr>)
     = mem wrap_state"
proof -
  have p: "ring_buffer_put 65 wrap_state =
     Inr (0, wrap_state\<lparr>mem := (mem wrap_state)(RingBufferMemory + 7 \<mapsto> 65),
                        ringbuffer := \<lparr>n_elem = 8, buf = RingBufferMemory, head = 0, tail = - 2\<rparr>\<rparr>)"
    by (simp add: ring_buffer_put_def ring_buffer_full_def wrap_state_def NULL_def
        RingBufferMemory_def)
  have g: "ring_buffer_get 0 wrap_state =
     Inr (0, 7, wrap_state\<lparr>ringbuffer := \<lparr>n_elem = 8, buf = RingBufferMemory, head = - 1, tail = - 1\<rparr>\<rparr>)"
    by (simp add: ring_buffer_get_def ring_buffer_empty_def wrap_state_def NULL_def
        RingBufferMemory_def)
  have off: "buf (ringbuffer wrap_state) +
      unat (head (ringbuffer wrap_state) AND (n_elem (ringbuffer wrap_state) - 1)) = RingBufferMemory + 7"
    by (simp add: wrap_state_def)
  show ?thesis
    using success_frame[of 65 wrap_state "wrap_state\<lparr>mem := (mem wrap_state)(RingBufferMemory + 7 \<mapsto> 65),
                        ringbuffer := \<lparr>n_elem = 8, buf = RingBufferMemory, head = 0, tail = - 2\<rparr>\<rparr>"
                        0 7] 
      success_frame[of 65 wrap_state "wrap_state\<lparr>ringbuffer := \<lparr>n_elem = 8, buf = RingBufferMemory, head = - 1, tail = - 1\<rparr>\<rparr>"
                        0 7] p g off
    by (simp add: wrap_state_def)
qed

text \<open>
  Claim C5. \<open>ring_buffer_full\<close> returns true (1, and otherwise 0) exactly when
  \<open>head - tail = n_elem\<close> in wrap-around arithmetic, and \<open>ring_buffer_empty\<close> exactly when
  \<open>head - tail = 0\<close>. Both are functions of the buffer structure alone and return only a
  value, so they change no state. After \<open>ring_buffer_init\<close> on a non-\<open>NULL\<close> storage pointer
  with any power of two as capacity, the call succeeds, the buffer is empty and it is not full.
\<close>

theorem full_empty_queries:
  "(ring_buffer_full rb = 1 \<longleftrightarrow> head rb - tail rb = n_elem rb) \<and>
   (ring_buffer_full rb = 0 \<longleftrightarrow> head rb - tail rb \<noteq> n_elem rb) \<and>
   (ring_buffer_empty rb = 1 \<longleftrightarrow> head rb - tail rb = 0) \<and>
   (ring_buffer_empty rb = 0 \<longleftrightarrow> head rb - tail rb \<noteq> 0) \<and>
   (is_pow2 n \<and> p \<noteq> NULL \<longrightarrow>
      fst (ring_buffer_init (Some \<lparr>attr_n_elem = n, buffer = p\<rparr>) s) = 0 \<and>
      ring_buffer_empty (ringbuffer (snd (ring_buffer_init (Some \<lparr>attr_n_elem = n, buffer = p\<rparr>) s))) = 1 \<and>
      ring_buffer_full (ringbuffer (snd (ring_buffer_init (Some \<lparr>attr_n_elem = n, buffer = p\<rparr>) s))) = 0)"
  using is_pow2_nz[of n]
  by (auto simp: init_result ring_buffer_full_def ring_buffer_empty_def)

theorem full_empty_queries_witness:
  "is_pow2 RING_BUFFER_SIZE \<and> RingBufferMemory \<noteq> NULL \<and>
   fst (ring_buffer_init (Some demo_attr) start_state) = 0 \<and>
   ring_buffer_empty (ringbuffer demo_state) = 1 \<and>
   ring_buffer_full (ringbuffer demo_state) = 0"
proof -
  have "is_pow2 RING_BUFFER_SIZE"
    unfolding is_pow2_iff RING_BUFFER_SIZE_def by (intro exI[of _ 3]) simp
  moreover have "RingBufferMemory \<noteq> NULL"
    by (simp add: RingBufferMemory_def NULL_def)
  ultimately show ?thesis
    using full_empty_queries[of "ringbuffer demo_state" RING_BUFFER_SIZE RingBufferMemory start_state]
    by (simp add: demo_state_def demo_attr_def)
qed

text \<open>
  Claim C6. \<open>ring_buffer_init\<close> is meant to succeed exactly for a non-\<open>NULL\<close> storage pointer
  and a capacity that is a power of two. The comment in the source says the test checks
  "that the size of the ring buffer is a power of 2", but \<open>((n_elem - 1) & n_elem) == 0\<close>
  also holds for \<open>n_elem = 0\<close>: the call below returns 0 and installs a buffer of capacity 0,
  which is not a power of two.
\<close>

theorem init_accepts_zero:
  "\<not> is_pow2 0 \<and>
   ring_buffer_init (Some \<lparr>attr_n_elem = 0, buffer = RingBufferMemory\<rparr>) start_state =
     (0, start_state\<lparr>ringbuffer := \<lparr>n_elem = 0, buf = RingBufferMemory, head = 0, tail = 0\<rparr>\<rparr>)"
  by (simp add: is_pow2_iff ring_buffer_init_def RingBufferMemory_def NULL_def)

text \<open>
  Claim C7, as the code has it. \<open>ring_buffer_init\<close> has one failure value: it returns \<open>- 1\<close>
  and leaves the state unchanged when the attribute pointer is \<open>NULL\<close>, when the storage
  pointer is \<open>NULL\<close>, and when the capacity is neither 0 nor a power of two. Every result is
  either 0 (success) or this \<open>- 1\<close>, so a failure is told from success but not from another
  failure.
\<close>

theorem init_failure_value:
  "ring_buffer_init None s = (- 1, s) \<and>
   (buffer a = NULL \<longrightarrow> ring_buffer_init (Some a) s = (- 1, s)) \<and>
   (attr_n_elem a \<noteq> 0 \<and> \<not> is_pow2 (attr_n_elem a) \<longrightarrow> ring_buffer_init (Some a) s = (- 1, s)) \<and>
   (fst (ring_buffer_init attr s) = 0 \<or> ring_buffer_init attr s = (- 1, s))"
  by (auto simp: init_result split: option.splits)

lemma not_pow2_3: "\<not> is_pow2 3"
proof
  assume "is_pow2 3"
  then obtain k where "k < 32" "(3::uint) = 2 ^ k" unfolding is_pow2_iff by blast
  then have "((3::uint) - 1) AND 3 = 0" using pow2_test[of k] by simp
  then show False by simp
qed

theorem init_failure_value_witness:
  "buffer \<lparr>attr_n_elem = 8, buffer = NULL\<rparr> = NULL \<and>
   ring_buffer_init (Some \<lparr>attr_n_elem = 8, buffer = NULL\<rparr>) start_state = (- 1, start_state) \<and>
   (3::uint) \<noteq> 0 \<and> \<not> is_pow2 3 \<and>
   ring_buffer_init (Some \<lparr>attr_n_elem = 3, buffer = RingBufferMemory\<rparr>) start_state
     = (- 1, start_state)"
  using init_failure_value[of start_state "\<lparr>attr_n_elem = 8, buffer = NULL\<rparr>" None]
    init_failure_value[of start_state "\<lparr>attr_n_elem = 3, buffer = RingBufferMemory\<rparr>" None]
    not_pow2_3
  by simp

text \<open>
  The claim as the specification states it fails: the rejected capacity 3 and the \<open>NULL\<close>
  storage pointer give the same result.
\<close>

theorem init_failures_coincide:
  "fst (ring_buffer_init (Some \<lparr>attr_n_elem = 3, buffer = RingBufferMemory\<rparr>) start_state) =
   fst (ring_buffer_init (Some \<lparr>attr_n_elem = 8, buffer = NULL\<rparr>) start_state)"
  by (simp add: ring_buffer_init_def RingBufferMemory_def NULL_def)

section \<open>Reading a character\<close>

lemma char_to_int_unsigned: "0 \<le> char_to_int False c"
  by (simp add: char_to_int_def)

text \<open>
  Where plain \<open>char\<close> is unsigned, the result of \<open>uart_getchar\<close> is \<open>- 1\<close> exactly when the
  buffer is empty.
\<close>

lemma uart_getchar_unsigned:
  assumes "rb_inv s" "uart_getchar False s = Inr (r, s')"
  shows "r = - 1 \<longleftrightarrow> ring_buffer_empty (ringbuffer s) = 1"
proof (cases "ring_buffer_empty (ringbuffer s) = 0")
  case True
  then obtain v where "ring_buffer_get (- 1) s =
      Inr (0, v, s\<lparr>ringbuffer := (ringbuffer s)\<lparr>tail := tail (ringbuffer s) + 1\<rparr>\<rparr>)"
    using get_step[OF assms(1)] by blast
  with assms(2) have "r = char_to_int False v" by (simp add: uart_getchar_def)
  with True show ?thesis using char_to_int_unsigned[of v] by auto
next
  case False
  then have e: "ring_buffer_empty (ringbuffer s) = 1" by (simp add: ring_buffer_empty_def split: if_splits)
  then have "ring_buffer_get (- 1) s = Inr (- 1, - 1, s)" by (simp add: ring_buffer_get_def Let_def)
  with assms(2) e show ?thesis by (simp add: uart_getchar_def)
qed

text \<open>
  Claim C9. \<open>uart_getchar\<close> is documented to return "the character read on success, -1 if
  nothing was read", and the buffer stores unsigned bytes. Where plain \<open>char\<close> is signed, the
  stored byte \<open>0xFF\<close> is read into \<open>char c\<close> and converted to the \<open>int\<close> \<open>- 1\<close>: the call on
  the buffer holding \<open>0xFF\<close> succeeds, consumes the byte and returns the same value as the
  call on the empty buffer.
\<close>

theorem uart_getchar_0xFF:
  "ring_buffer_put 255 demo_state = Inr (0, ff_state) \<and>
   uart_getchar True ff_state =
     Inr (- 1, ff_state\<lparr>ringbuffer := \<lparr>n_elem = 8, buf = RingBufferMemory, head = 1, tail = 1\<rparr>\<rparr>) \<and>
   uart_getchar True demo_state = Inr (- 1, demo_state)"
  by (simp add: uart_getchar_def ring_buffer_get_def ring_buffer_put_def ring_buffer_empty_def
      ring_buffer_full_def ff_state_def char_to_int_def demo_defs)

section \<open>The buffered bytes under put and get\<close>

lemma length_contents:
  "length (contents s) = unat (head (ringbuffer s) - tail (ringbuffer s))"
  by (simp add: contents_def Let_def)

lemma unat_pow2: "k < 32 \<Longrightarrow> unat ((2::uint) ^ k) = 2 ^ k"
proof -
  assume k: "k < 32"
  have "(2::nat) ^ k < 2 ^ 32" using k by (intro power_strict_increasing) simp_all
  moreover have "unat ((2::uint) ^ k) = unat (of_nat (2 ^ k) :: uint)" by simp
  ultimately show ?thesis by (simp only: unat_of_nat) simp
qed

lemma lt_succ_nz: "(d::uint) < n \<Longrightarrow> d + 1 \<noteq> 0"
proof
  assume lt: "d < n" and z: "d + 1 = 0"
  from z have "d = - 1" by (simp add: eq_neg_iff_add_eq_0)
  with lt show False by simp
qed

lemma slot_inj:
  assumes nz: "n_elem rb \<noteq> 0" and p2: "(n_elem rb - 1) AND n_elem rb = 0"
    and i: "i < unat (n_elem rb)" and j: "j < unat (n_elem rb)"
    and eq: "slot rb (t + of_nat i) = slot rb (t + of_nat j)"
  shows "i = j"
proof -
  from nz p2 have "is_pow2 (n_elem rb)" by (rule pow2_test_imp)
  then obtain k where k: "k < 32" and n: "n_elem rb = 2 ^ k" unfolding is_pow2_iff by blast
  have un: "unat (n_elem rb) = 2 ^ k" using k by (simp only: n unat_pow2)
  from eq have "(t + of_nat i) AND (n_elem rb - 1) = (t + of_nat j) AND (n_elem rb - 1)"
    by (simp add: slot_def word_unat_eq_iff)
  then have "take_bit k (t + of_nat i) = take_bit k (t + of_nat j)"
    by (simp only: n and_pred_mask)
  with k i j show ?thesis unfolding un by (rule take_bit_add_inj)
qed

lemma unat_dist_put:
  fixes h t n :: uint
  assumes "h - t \<le> n" "h - t \<noteq> n"
  shows "unat (h + 1 - t) = Suc (unat (h - t))" and "h + 1 - t \<le> n"
proof -
  have lt: "h - t < n" using assms by simp
  have e: "h + 1 - t = (h - t) + 1" by simp
  have "(h - t) + 1 \<noteq> 0" using lt by (rule lt_succ_nz)
  then show "unat (h + 1 - t) = Suc (unat (h - t))" unfolding e by (simp add: add.commute unatSuc)
  show "h + 1 - t \<le> n" unfolding e using lt by (rule inc_le)
qed

lemma unat_dist_get:
  fixes h t n :: uint
  assumes "h - t \<le> n" "h - t \<noteq> 0"
  shows "unat (h - (t + 1)) = unat (h - t) - 1" and "h - (t + 1) \<le> n"
proof -
  have e: "h - (t + 1) = (h - t) - 1" by simp
  show u: "unat (h - (t + 1)) = unat (h - t) - 1"
    unfolding e using assms(2) by (rule unat_minus_one)
  have "unat (h - (t + 1)) \<le> unat (h - t)" using u by simp
  also have "\<dots> \<le> unat n" using assms(1) by (simp add: word_le_nat_alt)
  finally show "h - (t + 1) \<le> n" by (simp add: word_le_nat_alt)
qed

lemma put_contents:
  fixes s :: state and b :: uchar
  assumes inv: "rb_inv s" and nf: "ring_buffer_full (ringbuffer s) = 0"
  defines "s' \<equiv> s\<lparr>mem := (mem s)(buf (ringbuffer s) +
                        unat (head (ringbuffer s) AND (n_elem (ringbuffer s) - 1)) \<mapsto> b),
                     ringbuffer := (ringbuffer s)\<lparr>head := head (ringbuffer s) + 1\<rparr>\<rparr>"
  shows "contents s' = contents s @ [b]" and "rb_inv s'"
proof -
  let ?rb = "ringbuffer s"
  let ?d = "unat (head ?rb - tail ?rb)"
  have le: "head ?rb - tail ?rb \<le> n_elem ?rb" using inv by (rule inv_le)
  have ne: "head ?rb - tail ?rb \<noteq> n_elem ?rb"
    using nf by (simp add: ring_buffer_full_def split: if_splits)
  have nz: "n_elem ?rb \<noteq> 0" using nf le by (rule not_full_nz)
  have p2: "(n_elem ?rb - 1) AND n_elem ?rb = 0" using inv by (simp add: rb_inv_def Let_def)
  have "head ?rb - tail ?rb < n_elem ?rb" using le ne by simp
  then have dlt: "?d < unat (n_elem ?rb)" by (simp add: word_less_nat_alt)
  have d': "unat (head ?rb + 1 - tail ?rb) = Suc ?d" using le ne by (rule unat_dist_put)
  have le': "head ?rb + 1 - tail ?rb \<le> n_elem ?rb" using le ne by (rule unat_dist_put)
  have hslot: "buf ?rb + unat (head ?rb AND (n_elem ?rb - 1)) = slot ?rb (tail ?rb + of_nat ?d)"
    by (simp add: slot_def)
  have slot': "slot (ringbuffer s') c = slot ?rb c" for c
    by (simp add: slot_def s'_def)
  have old: "mem s' (slot ?rb (tail ?rb + of_nat i)) = mem s (slot ?rb (tail ?rb + of_nat i))"
    if "i < ?d" for i
  proof -
    have "i < unat (n_elem ?rb)" using that dlt by simp
    then have "slot ?rb (tail ?rb + of_nat i) \<noteq> slot ?rb (tail ?rb + of_nat ?d)"
      using slot_inj[OF nz p2 _ dlt, of i "tail ?rb"] that by auto
    then show ?thesis unfolding s'_def hslot by simp
  qed
  have new: "mem s' (slot ?rb (tail ?rb + of_nat ?d)) = Some b"
    unfolding s'_def hslot by simp
  have "contents s' = map (\<lambda>i. the (mem s' (slot ?rb (tail ?rb + of_nat i)))) [0..<Suc ?d]"
    unfolding contents_def Let_def slot' by (simp add: s'_def d')
  also have "\<dots> = map (\<lambda>i. the (mem s' (slot ?rb (tail ?rb + of_nat i)))) [0..<?d] @ [b]"
    using new by simp
  also have "map (\<lambda>i. the (mem s' (slot ?rb (tail ?rb + of_nat i)))) [0..<?d] = contents s"
    unfolding contents_def Let_def using old by simp
  finally show "contents s' = contents s @ [b]" .
  show "rb_inv s'"
    using inv le' by (simp add: rb_inv_def Let_def s'_def storage_ok_def)
qed

lemma get_contents:
  fixes s :: state
  assumes inv: "rb_inv s" and nem: "ring_buffer_empty (ringbuffer s) = 0"
  defines "s' \<equiv> s\<lparr>ringbuffer := (ringbuffer s)\<lparr>tail := tail (ringbuffer s) + 1\<rparr>\<rparr>"
  shows "mem s (buf (ringbuffer s) +
           unat (tail (ringbuffer s) AND (n_elem (ringbuffer s) - 1))) = Some (hd (contents s))"
    and "contents s \<noteq> []" and "contents s' = tl (contents s)" and "rb_inv s'"
proof -
  let ?rb = "ringbuffer s"
  let ?d = "unat (head ?rb - tail ?rb)"
  have le: "head ?rb - tail ?rb \<le> n_elem ?rb" using inv by (rule inv_le)
  have ne: "head ?rb - tail ?rb \<noteq> 0"
    using nem by (simp add: ring_buffer_empty_def split: if_splits)
  have dpos: "0 < ?d" using ne by (simp add: unat_gt_0)
  obtain v where v: "mem s (buf ?rb + unat (tail ?rb AND (n_elem ?rb - 1))) = Some v"
    using get_step[OF inv nem] by blast
  have d': "unat (head ?rb - (tail ?rb + 1)) = ?d - 1" using le ne by (rule unat_dist_get)
  have le': "head ?rb - (tail ?rb + 1) \<le> n_elem ?rb" using le ne by (rule unat_dist_get)
  obtain d0 where d0: "?d = Suc d0" using dpos by (cases ?d) simp_all
  have upt: "[0..<?d] = 0 # map Suc [0..<d0]"
    unfolding d0 by (simp only: map_Suc_upt upt_conv_Cons[OF zero_less_Suc])
  have sh: "tail ?rb + of_nat (Suc i) = tail ?rb + 1 + of_nat i" for i by simp
  have "contents s = map (\<lambda>i. the (mem s (slot ?rb (tail ?rb + of_nat i)))) (0 # map Suc [0..<d0])"
    unfolding contents_def Let_def upt ..
  also have "\<dots> = the (mem s (slot ?rb (tail ?rb))) #
      map (\<lambda>i. the (mem s (slot ?rb (tail ?rb + 1 + of_nat i)))) [0..<d0]"
    by (simp only: list.map map_map comp_def sh) simp
  also have "the (mem s (slot ?rb (tail ?rb))) = v"
    using v by (simp add: slot_def)
  finally have c: "contents s = v # map (\<lambda>i. the (mem s (slot ?rb (tail ?rb + 1 + of_nat i)))) [0..<d0]" .
  show "contents s \<noteq> []" using c by simp
  show "mem s (buf ?rb + unat (tail ?rb AND (n_elem ?rb - 1))) = Some (hd (contents s))"
    using v c by simp
  have "contents s' = map (\<lambda>i. the (mem s (slot ?rb (tail ?rb + 1 + of_nat i)))) [0..<d0]"
    unfolding contents_def Let_def by (simp add: s'_def d' d0 slot_def)
  then show "contents s' = tl (contents s)" using c by simp
  show "rb_inv s'"
    using inv le' by (simp add: rb_inv_def Let_def s'_def)
qed

lemma full_iff_length:
  "ring_buffer_full (ringbuffer s) = 1 \<longleftrightarrow> length (contents s) = unat (n_elem (ringbuffer s))"
  by (simp add: ring_buffer_full_def length_contents word_unat_eq_iff)

lemma empty_iff_Nil:
  "ring_buffer_empty (ringbuffer s) = 1 \<longleftrightarrow> contents s = []"
proof -
  have "contents s = [] \<longleftrightarrow> length (contents s) = 0" by simp
  also have "\<dots> \<longleftrightarrow> head (ringbuffer s) - tail (ringbuffer s) = 0"
    unfolding length_contents by (simp add: unat_eq_0)
  finally show ?thesis by (simp add: ring_buffer_empty_def)
qed

section \<open>Sequences of calls against the queue of the specification\<close>

lemma full_cases: "ring_buffer_full rb = 0 \<or> ring_buffer_full rb = 1"
  by (simp add: ring_buffer_full_def)

lemma empty_cases: "ring_buffer_empty rb = 0 \<or> ring_buffer_empty rb = 1"
  by (simp add: ring_buffer_empty_def)

lemma exec_refines:
  assumes inv: "rb_inv s"
  shows "\<exists>s'. exec x s = Inr (fst (spec_exec (unat (n_elem (ringbuffer s))) x (contents s)), s') \<and>
              contents s' = snd (spec_exec (unat (n_elem (ringbuffer s))) x (contents s)) \<and>
              rb_inv s' \<and> n_elem (ringbuffer s') = n_elem (ringbuffer s)"
proof (cases x)
  case (Put b)
  show ?thesis
  proof (cases "ring_buffer_full (ringbuffer s) = 0")
    case True
    then have "length (contents s) \<noteq> unat (n_elem (ringbuffer s))"
      using full_iff_length[of s] by simp
    then show ?thesis
      using Put put_step[OF inv True, of b] put_contents[OF inv True, of b]
      by (simp add: spec_put_def)
  next
    case False
    then have f: "ring_buffer_full (ringbuffer s) = 1" using full_cases by blast
    then have "length (contents s) = unat (n_elem (ringbuffer s))"
      using full_iff_length[of s] by simp
    then show ?thesis
      using Put f inv by (simp add: spec_put_def ring_buffer_put_def Let_def)
  qed
next
  case (Get c)
  show ?thesis
  proof (cases "ring_buffer_empty (ringbuffer s) = 0")
    case True
    obtain v where v: "ring_buffer_get c s =
        Inr (0, v, s\<lparr>ringbuffer := (ringbuffer s)\<lparr>tail := tail (ringbuffer s) + 1\<rparr>\<rparr>)"
      and m: "mem s (buf (ringbuffer s) +
           unat (tail (ringbuffer s) AND (n_elem (ringbuffer s) - 1))) = Some v"
      using get_step[OF inv True, of c] by blast
    from m have hd: "v = hd (contents s)" using get_contents(1)[OF inv True] by simp
    obtain y ys where q: "contents s = y # ys"
      using get_contents(2)[OF inv True] by (cases "contents s") simp_all
    show ?thesis
      using Get v hd q get_contents(3,4)[OF inv True]
      by (simp add: spec_get_def)
  next
    case False
    then have e: "ring_buffer_empty (ringbuffer s) = 1" using empty_cases by blast
    then have "contents s = []" using empty_iff_Nil[of s] by simp
    then show ?thesis
      using Get e inv by (simp add: spec_get_def ring_buffer_get_def Let_def)
  qed
qed

lemma run_refines:
  assumes "rb_inv s"
  shows "\<exists>s'. run ops s = Inr (fst (spec_run (unat (n_elem (ringbuffer s))) ops (contents s)), s') \<and>
              contents s' = snd (spec_run (unat (n_elem (ringbuffer s))) ops (contents s)) \<and>
              rb_inv s' \<and> n_elem (ringbuffer s') = n_elem (ringbuffer s)"
  using assms
proof (induction ops arbitrary: s)
  case Nil
  then show ?case by simp
next
  case (Cons x xs)
  let ?N = "unat (n_elem (ringbuffer s))"
  obtain s1 where x: "exec x s = Inr (fst (spec_exec ?N x (contents s)), s1)"
    and c1: "contents s1 = snd (spec_exec ?N x (contents s))"
    and i1: "rb_inv s1" and n1: "n_elem (ringbuffer s1) = n_elem (ringbuffer s)"
    using exec_refines[OF Cons.prems, of x] by blast
  obtain s2 where xs: "run xs s1 = Inr (fst (spec_run ?N xs (contents s1)), s2)"
    and c2: "contents s2 = snd (spec_run ?N xs (contents s1))"
    and i2: "rb_inv s2" and n2: "n_elem (ringbuffer s2) = n_elem (ringbuffer s1)"
    using Cons.IH[OF i1] unfolding n1 by blast
  show ?case
    using x xs c1 c2 i2 n1 n2 by (simp add: case_prod_unfold)
qed

lemma puts_ok_Cons:
  "puts_ok (x # xs) (r # rs) = (if is_put x \<and> fst r = 0 then 1 else 0) + puts_ok xs rs"
  by (simp add: puts_ok_def)

lemma gets_ok_Cons:
  "gets_ok (x # xs) (r # rs) = (if \<not> is_put x \<and> fst r = 0 then 1 else 0) + gets_ok xs rs"
  by (simp add: gets_ok_def)

lemma counts_Nil: "puts_ok [] rs = 0" "gets_ok [] rs = 0"
  by (simp_all add: puts_ok_def gets_ok_def)

lemma spec_run_counts:
  "spec_run N ops q = (rs, q') \<Longrightarrow>
     length rs = length ops \<and> length q' + gets_ok ops rs = length q + puts_ok ops rs"
proof (induction ops arbitrary: q rs q')
  case Nil
  then show ?case by (auto simp: counts_Nil)
next
  case (Cons x xs)
  obtain r q1 where e: "spec_exec N x q = (r, q1)" by (cases "spec_exec N x q")
  obtain rs1 q2 where r: "spec_run N xs q1 = (rs1, q2)" by (cases "spec_run N xs q1")
  from Cons.prems e r have rs: "rs = r # rs1" and q': "q' = q2" by simp_all
  have ih: "length rs1 = length xs \<and> length q2 + gets_ok xs rs1 = length q1 + puts_ok xs rs1"
    using Cons.IH[OF r] .
  have step: "length q1 + (if \<not> is_put x \<and> fst r = 0 then 1 else 0)
      = length q + (if is_put x \<and> fst r = 0 then 1 else 0)"
    using e by (cases x) (auto simp: spec_put_def spec_get_def split: if_splits list.splits)
  show ?case unfolding rs q' puts_ok_Cons gets_ok_Cons using ih step by simp
qed

lemma exec_cursors:
  "exec x s = Inr (r, s') \<Longrightarrow>
     head (ringbuffer s') = head (ringbuffer s) + (if is_put x \<and> fst r = 0 then 1 else 0) \<and>
     tail (ringbuffer s') = tail (ringbuffer s) + (if \<not> is_put x \<and> fst r = 0 then 1 else 0)"
  by (cases x)
    (auto simp: ring_buffer_put_def ring_buffer_get_def Let_def split: if_splits option.splits)

lemma run_cursors:
  "run ops s = Inr (rs, s') \<Longrightarrow>
     head (ringbuffer s') = head (ringbuffer s) + of_nat (puts_ok ops rs) \<and>
     tail (ringbuffer s') = tail (ringbuffer s) + of_nat (gets_ok ops rs)"
proof (induction ops arbitrary: s rs)
  case Nil
  then show ?case by (auto simp: counts_Nil)
next
  case (Cons x xs)
  from Cons.prems obtain r s1 rs1 where e: "exec x s = Inr (r, s1)"
    and r: "run xs s1 = Inr (rs1, s')" and rs: "rs = r # rs1"
    by (auto split: sum.splits)
  show ?case unfolding rs puts_ok_Cons gets_ok_Cons
    using exec_cursors[OF e] Cons.IH[OF r] by simp
qed

lemma init_inv:
  assumes "ring_buffer_init (Some a) s0 = (0, s)"
    and "storage_ok (buffer a) (attr_n_elem a) (mem s0)"
  shows "rb_inv s" and "contents s = []" and "n_elem (ringbuffer s) = attr_n_elem a"
  using assms
  by (auto simp: ring_buffer_init_def rb_inv_def contents_def split: if_splits)

section \<open>First in, first out\<close>

text \<open>
  In an initialised, empty buffer of capacity at least 1, \<open>ring_buffer_put\<close> of a byte \<open>a\<close>
  followed by \<open>ring_buffer_get\<close> succeeds twice and delivers \<open>a\<close>. With capacity at least 2,
  \<open>put a; put b; get; get\<close> succeeds four times and delivers \<open>a\<close> from the first get and
  \<open>b\<close> from the second. (The bytes \<open>c\<close>, \<open>c'\<close> are what the caller's variable held before
  each get.)
\<close>

lemma fifo_order_pos_capacity:
  assumes "rb_inv s" and "ring_buffer_empty (ringbuffer s) = 1"
  shows "(1 \<le> n_elem (ringbuffer s) \<longrightarrow>
           (\<exists>s'. run [Put a, Get c] s = Inr ([(0, a), (0, a)], s'))) \<and>
         (2 \<le> n_elem (ringbuffer s) \<longrightarrow>
           (\<exists>s'. run [Put a, Put b, Get c, Get c'] s = Inr ([(0, a), (0, b), (0, a), (0, b)], s')))"
proof -
  let ?N = "unat (n_elem (ringbuffer s))"
  have q: "contents s = []" using assms(2) empty_iff_Nil[of s] by simp
  have one: "fst (spec_run ?N [Put a, Get c] []) = [(0, a), (0, a)]"
    if "1 \<le> n_elem (ringbuffer s)"
  proof -
    have "1 \<le> ?N" using that by (simp add: word_le_nat_alt)
    then show ?thesis by (simp add: spec_put_def spec_get_def)
  qed
  have two: "fst (spec_run ?N [Put a, Put b, Get c, Get c'] []) = [(0, a), (0, b), (0, a), (0, b)]"
    if "2 \<le> n_elem (ringbuffer s)"
  proof -
    have "2 \<le> ?N" using that by (simp add: word_le_nat_alt)
    then show ?thesis by (simp add: spec_put_def spec_get_def)
  qed
  show ?thesis
    using run_refines[OF assms(1), of "[Put a, Get c]"]
      run_refines[OF assms(1), of "[Put a, Put b, Get c, Get c']"] one two
    unfolding q by metis
qed

lemma fifo_order_demo:
  "rb_inv demo_state \<and> ring_buffer_empty (ringbuffer demo_state) = 1 \<and>
   2 \<le> n_elem (ringbuffer demo_state) \<and>
   (\<exists>s'. run [Put 65, Get 0] demo_state = Inr ([(0, 65), (0, 65)], s')) \<and>
   (\<exists>s'. run [Put 65, Put 66, Get 0, Get 0] demo_state
           = Inr ([(0, 65), (0, 66), (0, 65), (0, 66)], s'))"
proof -
  have e: "ring_buffer_empty (ringbuffer demo_state) = 1"
    by (simp add: ring_buffer_empty_def demo_defs)
  have n: "2 \<le> n_elem (ringbuffer demo_state)" "1 \<le> n_elem (ringbuffer demo_state)"
    by (simp_all add: demo_defs)
  show ?thesis
    using fifo_order_pos_capacity[OF demo_state_inv e, of 65 0 66 0] demo_state_inv e n by simp
qed

text \<open>
  Claim C3. The round trip is claimed for every initialised, empty buffer: \<open>put b\<close> followed
  by \<open>get\<close> succeeds and returns \<open>b\<close>. \<open>ring_buffer_init\<close> accepts \<open>n_elem = 0\<close>, although
  its comment says that it checks for a power of two. The buffer it then installs is an
  initialised state, it is empty, and it is full as well: for every byte \<open>a\<close> the put fails
  with \<open>- 1\<close>, the get that follows fails with \<open>- 1\<close> and leaves the caller's byte \<open>c\<close> as it
  was, and nothing is stored. With capacity at least 1 the round trip holds
  (\<open>fifo_order_pos_capacity\<close>).
\<close>

theorem fifo_roundtrip_capacity_zero:
  "ring_buffer_init (Some zero_attr) start_state = (0, zero_state) \<and>
   ring_buffer_empty (ringbuffer zero_state) = 1 \<and>
   ring_buffer_full (ringbuffer zero_state) = 1 \<and>
   run [Put a, Get c] zero_state = Inr ([(- 1, a), (- 1, c)], zero_state)"
  by (simp add: zero_state_def zero_attr_def ring_buffer_init_def start_state_def
      RingBufferMemory_def NULL_def ring_buffer_put_def ring_buffer_get_def
      ring_buffer_full_def ring_buffer_empty_def)

lemma zero_state_inv: "rb_inv zero_state"
  by (simp add: zero_state_def zero_attr_def ring_buffer_init_def start_state_def
      RingBufferMemory_def NULL_def rb_inv_def storage_ok_def)

section \<open>The cursor distance\<close>

text \<open>
  Claim C4. After a successful \<open>ring_buffer_init\<close> on storage of at least \<open>n_elem\<close> bytes,
  every sequence of put and get calls runs to its end, and afterwards the wrap-around
  difference \<open>head - tail\<close> is at most \<open>n_elem\<close>, equals the number of successful puts minus
  the number of successful gets, is 0 exactly when \<open>ring_buffer_empty\<close> holds and is \<open>n_elem\<close>
  exactly when \<open>ring_buffer_full\<close> holds; the state is again an initialised state, so the
  same holds after every further call.
\<close>

theorem cursor_distance_invariant:
  assumes "ring_buffer_init (Some a) s0 = (0, s)"
    and "storage_ok (buffer a) (attr_n_elem a) (mem s0)"
  shows "\<exists>rs s'. run ops s = Inr (rs, s') \<and>
           n_elem (ringbuffer s') = attr_n_elem a \<and>
           head (ringbuffer s') - tail (ringbuffer s') \<le> n_elem (ringbuffer s') \<and>
           int (unat (head (ringbuffer s') - tail (ringbuffer s')))
             = int (puts_ok ops rs) - int (gets_ok ops rs) \<and>
           (head (ringbuffer s') - tail (ringbuffer s') = 0
              \<longleftrightarrow> ring_buffer_empty (ringbuffer s') = 1) \<and>
           (head (ringbuffer s') - tail (ringbuffer s') = n_elem (ringbuffer s')
              \<longleftrightarrow> ring_buffer_full (ringbuffer s') = 1) \<and>
           rb_inv s'"
proof -
  let ?N = "unat (n_elem (ringbuffer s))"
  have inv: "rb_inv s" and q: "contents s = []" and n: "n_elem (ringbuffer s) = attr_n_elem a"
    using assms by (rule init_inv)+
  obtain rs q' where sr: "spec_run ?N ops [] = (rs, q')" by (cases "spec_run ?N ops []")
  obtain s' where r: "run ops s = Inr (rs, s')" and c: "contents s' = q'"
    and i: "rb_inv s'" and n': "n_elem (ringbuffer s') = n_elem (ringbuffer s)"
    using run_refines[OF inv, of ops] unfolding q sr by auto
  have n'': "n_elem (ringbuffer s') = attr_n_elem a" using n n' by simp
  have le: "head (ringbuffer s') - tail (ringbuffer s') \<le> n_elem (ringbuffer s')"
    using i by (rule inv_le)
  have "length q' + gets_ok ops rs = puts_ok ops rs"
    using spec_run_counts[OF sr] by simp
  then have cnt: "int (unat (head (ringbuffer s') - tail (ringbuffer s')))
             = int (puts_ok ops rs) - int (gets_ok ops rs)"
    unfolding c[symmetric] length_contents by linarith
  have e: "head (ringbuffer s') - tail (ringbuffer s') = 0
              \<longleftrightarrow> ring_buffer_empty (ringbuffer s') = 1"
    by (simp add: ring_buffer_empty_def)
  have f: "head (ringbuffer s') - tail (ringbuffer s') = n_elem (ringbuffer s')
              \<longleftrightarrow> ring_buffer_full (ringbuffer s') = 1"
    by (simp add: ring_buffer_full_def)
  show ?thesis
    by (intro exI[of _ rs] exI[of _ s'] conjI) (rule r n'' le cnt e f i)+
qed

theorem cursor_distance_invariant_witness:
  "ring_buffer_init (Some demo_attr) start_state = (0, demo_state) \<and>
   storage_ok (buffer demo_attr) (attr_n_elem demo_attr) (mem start_state) \<and>
   (\<exists>rs s'. run [Put 65, Put 66, Get 0] demo_state = Inr (rs, s') \<and>
      n_elem (ringbuffer s') = attr_n_elem demo_attr \<and>
      head (ringbuffer s') - tail (ringbuffer s') \<le> n_elem (ringbuffer s') \<and>
      int (unat (head (ringbuffer s') - tail (ringbuffer s')))
        = int (puts_ok [Put 65, Put 66, Get 0] rs) - int (gets_ok [Put 65, Put 66, Get 0] rs) \<and>
      (head (ringbuffer s') - tail (ringbuffer s') = 0)
        = (ring_buffer_empty (ringbuffer s') = 1) \<and>
      (head (ringbuffer s') - tail (ringbuffer s') = n_elem (ringbuffer s'))
        = (ring_buffer_full (ringbuffer s') = 1) \<and>
      rb_inv s')"
proof -
  have i: "ring_buffer_init (Some demo_attr) start_state = (0, demo_state)"
    by (simp add: demo_defs)
  have m: "storage_ok (buffer demo_attr) (attr_n_elem demo_attr) (mem start_state)"
    by (simp add: storage_ok_def demo_defs)
  show ?thesis
    using cursor_distance_invariant[OF i m, of "[Put 65, Put 66, Get 0]"] i m by simp
qed

section \<open>Cursor wrap-around\<close>

text \<open>
  Claim C8. The cursors are the numbers of successful puts and gets modulo \<open>2 ^ 32\<close>; they
  overflow and wrap once these numbers pass the width of \<open>unsigned int\<close>. From every
  initialised state, whatever its cursor values, every sequence of calls, of whatever length,
  runs to its end and gives call by call the results of the specification's queue on the
  buffered bytes: a put fails exactly when the queue holds \<open>n_elem\<close> bytes, a get fails
  exactly when it is empty, and each get delivers the oldest byte, so the slot selected by
  \<open>cursor & (n_elem - 1)\<close> is the right one. Afterwards \<open>ring_buffer_full\<close> and
  \<open>ring_buffer_empty\<close> still classify the buffered bytes correctly.
\<close>

theorem wraparound_correct:
  assumes "rb_inv s"
  shows "\<exists>rs s'. run ops s = Inr (rs, s') \<and>
           rs = fst (spec_run (unat (n_elem (ringbuffer s))) ops (contents s)) \<and>
           contents s' = snd (spec_run (unat (n_elem (ringbuffer s))) ops (contents s)) \<and>
           head (ringbuffer s') = head (ringbuffer s) + of_nat (puts_ok ops rs) \<and>
           tail (ringbuffer s') = tail (ringbuffer s) + of_nat (gets_ok ops rs) \<and>
           (ring_buffer_full (ringbuffer s') = 1
              \<longleftrightarrow> length (contents s') = unat (n_elem (ringbuffer s))) \<and>
           (ring_buffer_empty (ringbuffer s') = 1 \<longleftrightarrow> contents s' = []) \<and>
           rb_inv s'"
proof -
  let ?N = "unat (n_elem (ringbuffer s))"
  obtain s' where r: "run ops s = Inr (fst (spec_run ?N ops (contents s)), s')"
    and c: "contents s' = snd (spec_run ?N ops (contents s))"
    and i: "rb_inv s'" and n: "n_elem (ringbuffer s') = n_elem (ringbuffer s)"
    using run_refines[OF assms, of ops] by blast
  let ?rs = "fst (spec_run ?N ops (contents s))"
  have h: "head (ringbuffer s') = head (ringbuffer s) + of_nat (puts_ok ops ?rs)"
    and t: "tail (ringbuffer s') = tail (ringbuffer s) + of_nat (gets_ok ops ?rs)"
    using run_cursors[OF r] by simp_all
  have f: "ring_buffer_full (ringbuffer s') = 1 \<longleftrightarrow> length (contents s') = ?N"
    using full_iff_length[of s'] unfolding n .
  have e: "ring_buffer_empty (ringbuffer s') = 1 \<longleftrightarrow> contents s' = []"
    by (rule empty_iff_Nil)
  show ?thesis
    by (intro exI[of _ ?rs] exI[of _ s'] conjI) (rule r refl c h t f e i)+
qed

theorem wraparound_correct_witness:
  "rb_inv wrap_state \<and> head (ringbuffer wrap_state) = 4294967295 \<and>
   tail (ringbuffer wrap_state) = 4294967294 \<and> contents wrap_state = [7] \<and>
   (\<exists>s'. run [Put 1, Put 2, Get 0, Get 0, Get 0, Get 0] wrap_state
           = Inr ([(0, 1), (0, 2), (0, 7), (0, 1), (0, 2), (- 1, 0)], s') \<and>
         contents s' = [] \<and> head (ringbuffer s') = 1 \<and> tail (ringbuffer s') = 1 \<and>
         ring_buffer_empty (ringbuffer s') = 1 \<and> rb_inv s')"
proof -
  let ?ops = "[Put 1, Put 2, Get 0, Get 0, Get 0, Get 0]"
  let ?rs = "[(0, 1), (0, 2), (0, 7), (0, 1), (0, 2), (- 1, 0)] :: (int \<times> uchar) list"
  have ht: "head (ringbuffer wrap_state) = 4294967295" "tail (ringbuffer wrap_state) = 4294967294"
    by (simp_all add: wrap_state_def)
  have N: "unat (n_elem (ringbuffer wrap_state)) = 8" by (simp add: wrap_state_def)
  have d: "unat (head (ringbuffer wrap_state) - tail (ringbuffer wrap_state)) = Suc 0"
    by (simp add: wrap_state_def)
  have c: "contents wrap_state = [7]"
    unfolding contents_def Let_def d by (simp add: wrap_state_def slot_def RingBufferMemory_def)
  have sp: "spec_run 8 ?ops [7] = (?rs, [])"
    by (simp add: spec_put_def spec_get_def)
  have cnt: "puts_ok ?ops ?rs = 2" "gets_ok ?ops ?rs = 3"
    by (simp_all add: puts_ok_def gets_ok_def)
  obtain rs s' where r: "run ?ops wrap_state = Inr (rs, s')"
    and rs: "rs = ?rs" and c': "contents s' = []"
    and h: "head (ringbuffer s') = head (ringbuffer wrap_state) + of_nat (puts_ok ?ops rs)"
    and t: "tail (ringbuffer s') = tail (ringbuffer wrap_state) + of_nat (gets_ok ?ops rs)"
    and e: "ring_buffer_empty (ringbuffer s') = 1 \<longleftrightarrow> contents s' = []"
    and i: "rb_inv s'"
    using wraparound_correct[OF wrap_state_inv, of ?ops] unfolding N c sp by auto
  have "head (ringbuffer s') = 1" "tail (ringbuffer s') = 1"
    using h t unfolding rs cnt ht by simp_all
  then show ?thesis using wrap_state_inv ht c r rs c' e i by auto
qed

end
